theory Spec2Isabelle
  imports Main "HOL-Library.Finite_Map" "HOL-Library.Sublist"
begin

section \<open>JavaScript values and the object primitives used by NodeCache\<close>

text \<open>
  The cache of \<^verbatim>\<open>src/index.ts\<close> keeps two private fields: \<^verbatim>\<open>store\<close>, a plain
  object used as a tree of nested objects, and \<^verbatim>\<open>keys\<close>, a \<^verbatim>\<open>Set<string>\<close>.
  Stored values have type \<^verbatim>\<open>any\<close>. They are modelled as trees: the primitive values
  and plain objects, an object being a finite map from property names to values.

  Scope of the model.
  \<^item> Objects carry their own properties only. Properties inherited from
    \<^verbatim>\<open>Object.prototype\<close> (\<^verbatim>\<open>toString\<close>, \<^verbatim>\<open>constructor\<close>, \<^verbatim>\<open>__proto__\<close>, ...) are not
    modelled, and \<^verbatim>\<open>Object.prototype\<close> is taken to be as the language defines it. What
    the walks return for a key with such a segment is not what the code does; the
    properties below that depend on it are stated for plain keys (\<open>plain_key\<close>).
  \<^item> Values are trees: two keys never share one object, and a caller does not mutate
    an object after handing it to the cache or receiving it from \<^verbatim>\<open>get\<close>.
  \<^item> Numbers are integers (TTLs are whole seconds); arrays, functions and other exotic
    objects are not modelled. The code computes the delay \<^verbatim>\<open>ttl * 1000\<close> on doubles; the
    product of integers is the same number as long as it stays below \<open>2 ^ 53\<close>.
  \<^item> \<^verbatim>\<open>console.debug\<close> output is not part of the state. With \<^verbatim>\<open>debug\<close> set, \<^verbatim>\<open>set\<close> and
    \<^verbatim>\<open>delete\<close> also evaluate \<^verbatim>\<open>JSON.stringify(this.store)\<close>, which returns on every value
    modelled here (it throws on a \<^verbatim>\<open>BigInt\<close> or a cyclic object only).
  \<^item> The class body is strict-mode code, so an assignment to a property of a primitive
    raises \<^verbatim>\<open>TypeError\<close>.
\<close>

datatype jsval =
    JUndefined
  | JNull
  | JBool bool
  | JNum int
  | JStr string
  | JObj "(string, jsval) fmap"

datatype error = TypeError

datatype 'a outcome = Returned 'a | Threw error

fun is_mapping :: "jsval \<Rightarrow> bool" where
  "is_mapping (JObj m) = True"
| "is_mapping v = False"

text \<open>Decimal rendering of an array index, as in the property names of a string.\<close>

fun digit_char :: "nat \<Rightarrow> char" where
  "digit_char n = ''0123456789'' ! (n mod 10)"

fun index_name :: "nat \<Rightarrow> string" where
  "index_name n = (if n < 10 then [digit_char n] else index_name (n div 10) @ [digit_char n])"

declare index_name.simps [simp del]

text \<open>
  \<^verbatim>\<open>current[part] = value\<close>. On an object the property is written. On \<^verbatim>\<open>undefined\<close>
  and \<^verbatim>\<open>null\<close> the assignment raises \<^verbatim>\<open>TypeError\<close>; on a boolean, number or string
  it raises \<^verbatim>\<open>TypeError\<close> in strict mode.
\<close>

fun js_put :: "jsval \<Rightarrow> string \<Rightarrow> jsval \<Rightarrow> jsval \<times> unit outcome" where
  "js_put (JObj m) part v = (JObj (fmupd part v m), Returned ())"
| "js_put current part v = (current, Threw TypeError)"

text \<open>
  \<^verbatim>\<open>delete current[part]\<close>. On an object the own property is removed. On \<^verbatim>\<open>undefined\<close>
  and \<^verbatim>\<open>null\<close> it raises \<^verbatim>\<open>TypeError\<close>. A boolean or a number has no own property, so
  nothing happens. A string has the non-configurable own properties \<^verbatim>\<open>length\<close> and its
  indices; deleting one of them raises \<^verbatim>\<open>TypeError\<close> in strict mode.
\<close>

fun js_delete :: "jsval \<Rightarrow> string \<Rightarrow> jsval \<times> unit outcome" where
  "js_delete (JObj m) part = (JObj (fmdrop part m), Returned ())"
| "js_delete JUndefined part = (JUndefined, Threw TypeError)"
| "js_delete JNull part = (JNull, Threw TypeError)"
| "js_delete (JStr s) part =
     (if part = ''length'' \<or> part \<in> set (map index_name [0..<length s])
      then (JStr s, Threw TypeError) else (JStr s, Returned ()))"
| "js_delete current part = (current, Returned ())"

section \<open>Keys: split, join, startsWith\<close>

text \<open>\<^verbatim>\<open>key.split(':')\<close>: never empty; the empty string gives one empty segment.\<close>

fun split_colon :: "string \<Rightarrow> string list" where
  "split_colon [] = [[]]"
| "split_colon (c # cs) =
     (if c = CHR '':'' then [] # split_colon cs
      else (case split_colon cs of
              [] \<Rightarrow> [[c]]
            | w # ws \<Rightarrow> (c # w) # ws))"

text \<open>\<^verbatim>\<open>parts.join(':')\<close>.\<close>

fun join_colon :: "string list \<Rightarrow> string" where
  "join_colon [] = []"
| "join_colon [p] = p"
| "join_colon (p # q # ps) = p @ '':'' @ join_colon (q # ps)"

text \<open>\<^verbatim>\<open>k.startsWith(p)\<close>.\<close>

definition startsWith :: "string \<Rightarrow> string \<Rightarrow> bool" where
  "startsWith k p = prefix p k"

section \<open>The cache\<close>

record CacheOptions =
  ttl :: "int option"
  debug :: bool

text \<open>
  \<^verbatim>\<open>keys\<close> is a \<^verbatim>\<open>Set<string>\<close>: a list without duplicates in insertion order.
  \<^verbatim>\<open>timers\<close> holds the pending \<^verbatim>\<open>setTimeout\<close> callbacks: the key each one will delete
  and the delay in milliseconds it was armed with.
\<close>

record NodeCache =
  options :: CacheOptions
  store :: jsval
  keys :: "string list"
  timers :: "(string \<times> int) list"

definition construct :: "CacheOptions \<Rightarrow> NodeCache" where
  "construct opts = \<lparr>options = opts, store = JObj fmempty, keys = [], timers = []\<rparr>"

text \<open>\<^verbatim>\<open>Set.prototype.add\<close>.\<close>

definition set_add :: "string \<Rightarrow> string list \<Rightarrow> string list" where
  "set_add k ks = (if k \<in> set ks then ks else ks @ [k])"

text \<open>
  \<^verbatim>\<open>addKey\<close>: for every index of \<^verbatim>\<open>parts\<close>, adds \<^verbatim>\<open>parts.slice(0, index + 1).join(':')\<close>.
\<close>

definition addKey :: "string \<Rightarrow> string list \<Rightarrow> string list" where
  "addKey key ks =
     (let parts = split_colon key
      in fold (\<lambda>index acc. set_add (join_colon (take (index + 1) parts)) acc)
           [0..<length parts] ks)"

text \<open>\<^verbatim>\<open>deleteKey\<close>: removes \<^verbatim>\<open>key\<close> and every \<^verbatim>\<open>k\<close> with \<^verbatim>\<open>k.startsWith(key + ':')\<close>.\<close>

definition deleteKey :: "string \<Rightarrow> string list \<Rightarrow> string list" where
  "deleteKey key ks = filter (\<lambda>k. \<not> (k = key \<or> startsWith k (key @ '':''))) ks"

text \<open>
  The loop of \<^verbatim>\<open>get\<close>: \<^verbatim>\<open>part in current\<close> raises \<^verbatim>\<open>TypeError\<close> when \<^verbatim>\<open>current\<close> is not
  an object; a missing property returns \<^verbatim>\<open>undefined\<close>.
\<close>

fun get_walk :: "jsval \<Rightarrow> string list \<Rightarrow> jsval outcome" where
  "get_walk current [] = Returned current"
| "get_walk (JObj m) (part # rest) =
     (case fmlookup m part of
        None \<Rightarrow> Returned JUndefined
      | Some child \<Rightarrow> get_walk child rest)"
| "get_walk current (part # rest) = Threw TypeError"

text \<open>
  The \<^verbatim>\<open>forEach\<close> of \<^verbatim>\<open>set\<close>. The result is the node \<^verbatim>\<open>current\<close> as the loop leaves it
  and whether the loop threw. At the last index the value is assigned. Before it,
  \<^verbatim>\<open>part in current\<close> raises \<^verbatim>\<open>TypeError\<close> on a non-object, a missing property is created
  as \<^verbatim>\<open>{}\<close>, and the loop goes down into \<^verbatim>\<open>current[part]\<close>; the child is mutated in
  place, which the parent object sees. The equations are tried in order, so \<^verbatim>\<open>rest\<close>
  is not empty in the third and fourth. \<^verbatim>\<open>split\<close> never returns an empty array, so the
  first equation is never reached from \<^verbatim>\<open>set\<close>.
\<close>

fun set_walk :: "jsval \<Rightarrow> string list \<Rightarrow> jsval \<Rightarrow> jsval \<times> unit outcome" where
  "set_walk current [] v = (current, Returned ())"
| "set_walk current [part] v = js_put current part v"
| "set_walk (JObj m) (part # rest) v =
     (case fmlookup m part of
        None \<Rightarrow>
          (let (child, r) = set_walk (JObj fmempty) rest v
           in (JObj (fmupd part child m), r))
      | Some c \<Rightarrow>
          (let (child, r) = set_walk c rest v
           in (JObj (fmupd part child m), r)))"
| "set_walk current (part # rest) v = (current, Threw TypeError)"

text \<open>
  The loop of \<^verbatim>\<open>delete\<close> over all parts but the last, then \<^verbatim>\<open>delete current[last]\<close>.
  A missing ancestor returns early; a non-object ancestor makes \<^verbatim>\<open>part in current\<close>
  raise \<^verbatim>\<open>TypeError\<close>. As in \<^verbatim>\<open>set_walk\<close>, \<^verbatim>\<open>rest\<close> is not empty in the third and
  fourth equations and the first is never reached from \<^verbatim>\<open>delete\<close>.
\<close>

fun delete_walk :: "jsval \<Rightarrow> string list \<Rightarrow> jsval \<times> unit outcome" where
  "delete_walk current [] = (current, Returned ())"
| "delete_walk current [part] = js_delete current part"
| "delete_walk (JObj m) (part # rest) =
     (case fmlookup m part of
        None \<Rightarrow> (JObj m, Returned ())
      | Some c \<Rightarrow>
          (let (child, r) = delete_walk c rest
           in (JObj (fmupd part child m), r)))"
| "delete_walk current (part # rest) = (current, Threw TypeError)"

subsection \<open>The public operations\<close>

text \<open>Every operation returns its outcome and the cache as it leaves it.\<close>

definition NodeCache_get :: "string \<Rightarrow> NodeCache \<Rightarrow> jsval outcome \<times> NodeCache" where
  "NodeCache_get key c =
     (if key \<notin> set (keys c) then (Returned JUndefined, c)
      else (get_walk (store c) (split_colon key), c))"

definition NodeCache_has :: "string \<Rightarrow> NodeCache \<Rightarrow> bool outcome \<times> NodeCache" where
  "NodeCache_has key c = (Returned (key \<in> set (keys c)), c)"

text \<open>\<^verbatim>\<open>ttl || this.options.ttl\<close> tests truthiness: a number that is present and not 0.\<close>

fun truthy :: "int option \<Rightarrow> bool" where
  "truthy None = False"
| "truthy (Some n) = (n \<noteq> 0)"

text \<open>\<^verbatim>\<open>ttl ?? this.options.ttl\<close>.\<close>

fun nullish :: "int option \<Rightarrow> int option \<Rightarrow> int option" where
  "nullish (Some t) d = Some t"
| "nullish None d = d"

definition NodeCache_set ::
  "string \<Rightarrow> jsval \<Rightarrow> int option \<Rightarrow> NodeCache \<Rightarrow> unit outcome \<times> NodeCache" where
  "NodeCache_set key v ttl_arg c =
     (let c1 = c\<lparr>keys := addKey key (keys c)\<rparr>;
          (st, r) = set_walk (store c1) (split_colon key) v;
          c2 = c1\<lparr>store := st\<rparr>
      in case r of
           Threw e \<Rightarrow> (Threw e, c2)
         | Returned u \<Rightarrow>
             if truthy ttl_arg \<or> truthy (ttl (options c2)) then
               (case nullish ttl_arg (ttl (options c2)) of
                  Some t \<Rightarrow> (Returned (), c2\<lparr>timers := timers c2 @ [(key, t * 1000)]\<rparr>)
                | None \<Rightarrow> (Returned (), c2))
             else (Returned (), c2))"

definition NodeCache_delete :: "string \<Rightarrow> NodeCache \<Rightarrow> unit outcome \<times> NodeCache" where
  "NodeCache_delete key c =
     (let c1 = c\<lparr>keys := deleteKey key (keys c)\<rparr>;
          (st, r) = delete_walk (store c1) (split_colon key)
      in (r, c1\<lparr>store := st\<rparr>))"

definition NodeCache_clear :: "NodeCache \<Rightarrow> unit outcome \<times> NodeCache" where
  "NodeCache_clear c = (Returned (), c\<lparr>keys := [], store := JObj fmempty\<rparr>)"

text \<open>
  A pending timer fires: it leaves the pending list and its callback runs
  \<^verbatim>\<open>this.delete(key)\<close>.
\<close>

definition fire :: "nat \<Rightarrow> NodeCache \<Rightarrow> unit outcome \<times> NodeCache" where
  "fire i c =
     (if i < length (timers c)
      then NodeCache_delete (fst (timers c ! i))
             (c\<lparr>timers := take i (timers c) @ drop (Suc i) (timers c)\<rparr>)
      else (Returned (), c))"

subsection \<open>Sequences of mutations\<close>

datatype op = Set string jsval "int option" | Delete string | Clear | Fire nat

fun exec :: "op \<Rightarrow> NodeCache \<Rightarrow> NodeCache" where
  "exec (Set key v ttl_arg) c = snd (NodeCache_set key v ttl_arg c)"
| "exec (Delete key) c = snd (NodeCache_delete key c)"
| "exec Clear c = snd (NodeCache_clear c)"
| "exec (Fire i) c = snd (fire i c)"

definition run :: "op list \<Rightarrow> NodeCache \<Rightarrow> NodeCache" where
  "run ops c = fold exec ops c"

fun scalar_op :: "op \<Rightarrow> bool" where
  "scalar_op (Set key v ttl_arg) = (\<not> is_mapping v)"
| "scalar_op other = True"

subsection \<open>Paths of the value tree\<close>

text \<open>
  The data model's notion of a path that resolves in the value tree: every segment
  but the last names a mapping node that has the next segment as a child.
\<close>

fun resolve :: "jsval \<Rightarrow> string list \<Rightarrow> jsval option" where
  "resolve current [] = Some current"
| "resolve (JObj m) (part # rest) =
     (case fmlookup m part of None \<Rightarrow> None | Some child \<Rightarrow> resolve child rest)"
| "resolve current (part # rest) = None"


text \<open>
  A path is covered by the tree when walking it from the root either ends at a node or
  reaches a non-mapping value before its end (the path is shadowed by that value).
\<close>

fun covered :: "jsval \<Rightarrow> string list \<Rightarrow> bool" where
  "covered current [] = True"
| "covered (JObj m) (part # rest) =
     (case fmlookup m part of None \<Rightarrow> False | Some child \<Rightarrow> covered child rest)"
| "covered current (part # rest) = True"

subsection \<open>Keys within the scope of the model\<close>

text \<open>
  The names of the properties that every plain object inherits from \<^verbatim>\<open>Object.prototype\<close>.
  For these names \<^verbatim>\<open>part in current\<close> is true and \<^verbatim>\<open>current[part]\<close> reads or writes the
  inherited property, which the walks above do not model. A key is plain when none of
  its segments is one of these names; for a plain key \<^verbatim>\<open>in\<close>, the read, the assignment and
  \<^verbatim>\<open>delete\<close> act on own properties only, as the walks above do.
\<close>

definition object_prototype_names :: "string list" where
  "object_prototype_names =
     [''constructor'', ''__defineGetter__'', ''__defineSetter__'', ''hasOwnProperty'',
      ''__lookupGetter__'', ''__lookupSetter__'', ''isPrototypeOf'',
      ''propertyIsEnumerable'', ''toString'', ''valueOf'', ''__proto__'',
      ''toLocaleString'']"

definition plain_key :: "string \<Rightarrow> bool" where
  "plain_key key = list_all (\<lambda>part. part \<notin> set object_prototype_names) (split_colon key)"

fun plain_op :: "op \<Rightarrow> bool" where
  "plain_op (Set key v ttl_arg) = plain_key key"
| "plain_op (Delete key) = plain_key key"
| "plain_op other = True"

section \<open>Keys and the index\<close>

lemma split_colon_nonempty: "split_colon k \<noteq> []"
  by (induction k) (auto split: list.splits)

lemma join_colon_Cons: "join_colon ((c # w) # ws) = c # join_colon (w # ws)"
  by (cases ws) simp_all

lemma join_split_colon: "join_colon (split_colon k) = k"
proof (induction k)
  case Nil
  show ?case by simp
next
  case (Cons c cs)
  obtain w ws where sp: "split_colon cs = w # ws"
    using split_colon_nonempty [of cs] by (cases "split_colon cs") auto
  show ?case
  proof (cases "c = CHR '':''")
    case True
    then show ?thesis using Cons sp by simp
  next
    case False
    then show ?thesis using Cons sp by (simp add: join_colon_Cons)
  qed
qed

lemma split_colon_append:
  "split_colon (a @ CHR '':'' # b) = split_colon a @ split_colon b"
proof (induction a)
  case Nil
  show ?case by simp
next
  case (Cons c cs)
  obtain w ws where sp: "split_colon cs = w # ws"
    using split_colon_nonempty [of cs] by (cases "split_colon cs") auto
  show ?case using Cons sp by simp
qed

lemma startsWith_split:
  assumes "startsWith k (key @ '':'')"
  shows "prefix (split_colon key) (split_colon k)"
proof -
  from assms obtain r where "k = key @ CHR '':'' # r"
    by (auto simp: startsWith_def prefix_def)
  then show ?thesis by (simp add: split_colon_append)
qed

lemma set_set_add: "set (set_add k ks) = insert k (set ks)"
  by (auto simp: set_add_def)

lemma set_fold_set_add:
  "set (fold (\<lambda>i acc. set_add (f i) acc) is ks) = set ks \<union> f ` set is"
  by (induction "is" arbitrary: ks) (auto simp: set_set_add)

lemma set_addKey:
  "set (addKey key ks) =
     set ks \<union> {join_colon (take (Suc i) (split_colon key)) | i. i < length (split_colon key)}"
  by (auto simp: addKey_def Let_def set_fold_set_add)

lemma addKey_prefix:
  assumes "prefix q (split_colon key)" "q \<noteq> []"
  shows "join_colon q \<in> set (addKey key ks)"
proof -
  from assms obtain n where "q = take (Suc n) (split_colon key)" "n < length (split_colon key)"
    by (metis Suc_pred' length_greater_0_conv less_eq_Suc_le prefix_length_le prefix_def append_eq_conv_conj)
  then show ?thesis by (auto simp: set_addKey)
qed

lemma addKey_self: "key \<in> set (addKey key ks)"
  using addKey_prefix [of "split_colon key" key ks] split_colon_nonempty [of key]
  by (simp add: join_split_colon)

lemma set_deleteKey:
  "set (deleteKey key ks) = {k \<in> set ks. k \<noteq> key \<and> \<not> startsWith k (key @ '':'')}"
  by (auto simp: deleteKey_def)

lemma split_colon_no_colon: "p \<in> set (split_colon k) \<Longrightarrow> CHR '':'' \<notin> set p"
proof (induction k arbitrary: p)
  case Nil
  then show ?case by simp
next
  case (Cons c cs)
  obtain w ws where sp: "split_colon cs = w # ws"
    using split_colon_nonempty [of cs] by (cases "split_colon cs") auto
  then have "CHR '':'' \<notin> set w" and "\<And>p. p \<in> set ws \<Longrightarrow> CHR '':'' \<notin> set p"
    using Cons.IH by auto
  then show ?case using Cons.prems sp by (auto split: if_splits)
qed

lemma split_colon_plain: "CHR '':'' \<notin> set p \<Longrightarrow> split_colon p = [p]"
  by (induction p) auto

lemma split_join_colon:
  "ps \<noteq> [] \<Longrightarrow> \<forall>p\<in>set ps. CHR '':'' \<notin> set p \<Longrightarrow> split_colon (join_colon ps) = ps"
proof (induction ps rule: join_colon.induct)
  case 1
  then show ?case by simp
next
  case (2 p)
  then show ?case by (simp add: split_colon_plain)
next
  case (3 p q ps)
  then have "split_colon (join_colon (q # ps)) = q # ps" by simp
  moreover have "split_colon p = [p]" using 3(3) by (simp add: split_colon_plain)
  ultimately show ?case using split_colon_append [of p "join_colon (q # ps)"] by simp
qed

lemma join_colon_append:
  "q \<noteq> [] \<Longrightarrow> r \<noteq> [] \<Longrightarrow> join_colon (q @ r) = join_colon q @ '':'' @ join_colon r"
proof (induction q rule: join_colon.induct)
  case 1
  then show ?case by simp
next
  case (2 p)
  then show ?case by (cases r) simp_all
next
  case (3 p q ps)
  then show ?case by simp
qed

lemma join_colon_prefix:
  assumes "prefix q ps" "q \<noteq> []"
  shows "join_colon q = join_colon ps \<or> prefix (join_colon q @ '':'') (join_colon ps)"
proof -
  from assms obtain r where ps: "ps = q @ r" by (auto simp: prefix_def)
  show ?thesis
  proof (cases r)
    case Nil
    then show ?thesis using ps by simp
  next
    case (Cons a as)
    then have "join_colon ps = join_colon q @ '':'' @ join_colon r"
      using ps assms(2) by (simp add: join_colon_append)
    then show ?thesis by (simp add: prefix_def)
  qed
qed




section \<open>Walking the value tree\<close>

lemma resolve_get_walk: "resolve cur parts = Some v \<Longrightarrow> get_walk cur parts = Returned v"
  by (induction cur parts rule: resolve.induct) (auto split: option.splits)







lemma resolve_scalar: "\<not> is_mapping v \<Longrightarrow> resolve v q = Some x \<Longrightarrow> q = []"
  by (cases v; cases q) auto

lemma set_walk_resolve:
  "\<not> is_mapping v \<Longrightarrow> resolve (fst (set_walk cur parts v)) q = Some x \<Longrightarrow>
   resolve cur q \<noteq> None \<or> (q \<noteq> [] \<and> prefix q parts)"
proof (induction cur parts v arbitrary: q x rule: set_walk.induct)
  case (1 current v)
  then show ?case by simp
next
  case (2 current part v)
  then show ?case
    by (cases current; cases q) (auto split: if_splits dest: resolve_scalar)
next
  case (3 m part p' rest v)
  show ?case
  proof (cases q)
    case Nil
    then show ?thesis by simp
  next
    case (Cons a qs)
    show ?thesis
    proof (cases "a = part")
      case False
      then show ?thesis using 3(4) Cons by (auto split: option.splits prod.splits)
    next
      case True
      show ?thesis
      proof (cases "fmlookup m part")
        case None
        with 3(4) Cons True
        have "resolve (fst (set_walk (JObj fmempty) (p' # rest) v)) qs = Some x"
          by (auto split: prod.splits)
        from 3(1) [OF None 3(3) this]
        have "qs = [] \<or> (qs \<noteq> [] \<and> prefix qs (p' # rest))"
          by (cases qs) auto
        then show ?thesis using Cons True by auto
      next
        case (Some c)
        with 3(4) Cons True
        have "resolve (fst (set_walk c (p' # rest) v)) qs = Some x"
          by (auto split: prod.splits)
        from 3(2) [OF Some 3(3) this]
        show ?thesis using Cons True Some by auto
      qed
    qed
  qed
qed simp_all

lemma js_delete_resolve:
  "resolve (fst (js_delete cur part)) q = Some x \<Longrightarrow>
   resolve cur q \<noteq> None \<and> \<not> prefix [part] q"
  by (cases cur; cases q) (auto split: if_splits option.splits)

lemma delete_walk_resolve:
  "parts \<noteq> [] \<Longrightarrow> resolve (fst (delete_walk cur parts)) q = Some x \<Longrightarrow>
   resolve cur q \<noteq> None \<and> \<not> prefix parts q"
proof (induction cur parts arbitrary: q x rule: delete_walk.induct)
  case (1 current)
  then show ?case by simp
next
  case (2 current part)
  then show ?case using js_delete_resolve [of current part q x] by simp
next
  case (3 m part p' rest)
  show ?case
  proof (cases q)
    case Nil
    then show ?thesis by simp
  next
    case (Cons a qs)
    show ?thesis
    proof (cases "a = part")
      case False
      then show ?thesis using 3(3) Cons by (auto split: option.splits prod.splits)
    next
      case True
      show ?thesis
      proof (cases "fmlookup m part")
        case None
        then show ?thesis using 3(3) Cons True by simp
      next
        case (Some c)
        with 3(3) Cons True
        have "resolve (fst (delete_walk c (p' # rest))) qs = Some x"
          by (auto split: prod.splits)
        from 3(1) [OF Some _ this]
        show ?thesis using Cons True Some by auto
      qed
    qed
  qed
qed (auto simp: prefix_def)









section \<open>Projections of the operations\<close>

lemma keys_set [simp]: "keys (snd (NodeCache_set key v ttl_arg c)) = addKey key (keys c)"
  by (simp add: NodeCache_set_def Let_def split: prod.splits outcome.splits option.splits)

lemma store_set [simp]:
  "store (snd (NodeCache_set key v ttl_arg c)) = fst (set_walk (store c) (split_colon key) v)"
  by (simp add: NodeCache_set_def Let_def split: prod.splits outcome.splits option.splits)

lemma options_set [simp]: "options (snd (NodeCache_set key v ttl_arg c)) = options c"
  by (simp add: NodeCache_set_def Let_def split: prod.splits outcome.splits option.splits)

lemma fst_set: "fst (NodeCache_set key v ttl_arg c) = snd (set_walk (store c) (split_colon key) v)"
  by (simp add: NodeCache_set_def Let_def split: prod.splits outcome.splits option.splits)

lemma keys_delete [simp]: "keys (snd (NodeCache_delete key c)) = deleteKey key (keys c)"
  by (simp add: NodeCache_delete_def Let_def split: prod.splits)

lemma store_delete [simp]:
  "store (snd (NodeCache_delete key c)) = fst (delete_walk (store c) (split_colon key))"
  by (simp add: NodeCache_delete_def Let_def split: prod.splits)

lemma options_delete [simp]: "options (snd (NodeCache_delete key c)) = options c"
  by (simp add: NodeCache_delete_def Let_def split: prod.splits)

lemma timers_delete [simp]: "timers (snd (NodeCache_delete key c)) = timers c"
  by (simp add: NodeCache_delete_def Let_def split: prod.splits)

lemma fst_delete: "fst (NodeCache_delete key c) = snd (delete_walk (store c) (split_colon key))"
  by (simp add: NodeCache_delete_def Let_def split: prod.splits)

lemma fst_has [simp]: "fst (NodeCache_has key c) = Returned (key \<in> set (keys c))"
  by (simp add: NodeCache_has_def)



lemma keys_fire:
  "keys (snd (fire i c)) =
     (if i < length (timers c) then deleteKey (fst (timers c ! i)) (keys c) else keys c)"
  by (simp add: fire_def)

lemma store_fire:
  "store (snd (fire i c)) =
     (if i < length (timers c)
      then fst (delete_walk (store c) (split_colon (fst (timers c ! i)))) else store c)"
  by (simp add: fire_def)

section \<open>Sequences of operations\<close>



lemma fold_exec_invariant:
  assumes "P c" and "\<And>op c. op \<in> set ops \<Longrightarrow> P c \<Longrightarrow> P (exec op c)"
  shows "P (fold exec ops c)"
  using assms by (induction ops arbitrary: c) auto



lemma tree_indexed_set:
  assumes "\<forall>k. resolve (store c) (split_colon k) \<noteq> None \<longrightarrow> k \<in> set (keys c)"
    and "\<not> is_mapping v"
    and "resolve (store (snd (NodeCache_set key v ttl_arg c))) (split_colon k) \<noteq> None"
  shows "k \<in> set (keys (snd (NodeCache_set key v ttl_arg c)))"
proof -
  from assms(3) obtain x where
    "resolve (fst (set_walk (store c) (split_colon key) v)) (split_colon k) = Some x"
    by auto
  from set_walk_resolve [OF assms(2) this]
  have "resolve (store c) (split_colon k) \<noteq> None
      \<or> (split_colon k \<noteq> [] \<and> prefix (split_colon k) (split_colon key))" .
  then show ?thesis
  proof
    assume "resolve (store c) (split_colon k) \<noteq> None"
    with assms(1) have "k \<in> set (keys c)" by blast
    then show ?thesis by (simp add: set_addKey)
  next
    assume "split_colon k \<noteq> [] \<and> prefix (split_colon k) (split_colon key)"
    then have "join_colon (split_colon k) \<in> set (addKey key (keys c))"
      by (simp add: addKey_prefix)
    then show ?thesis by (simp add: join_split_colon)
  qed
qed

lemma tree_indexed_delete_walk:
  assumes "\<forall>k. resolve st (split_colon k) \<noteq> None \<longrightarrow> k \<in> set ks"
    and "resolve (fst (delete_walk st (split_colon key))) (split_colon k) \<noteq> None"
  shows "k \<in> set (deleteKey key ks)"
proof -
  from assms(2) obtain x where
    "resolve (fst (delete_walk st (split_colon key))) (split_colon k) = Some x"
    by auto
  from delete_walk_resolve [OF split_colon_nonempty this]
  have r: "resolve st (split_colon k) \<noteq> None"
    and np: "\<not> prefix (split_colon key) (split_colon k)" by auto
  from r assms(1) have "k \<in> set ks" by blast
  moreover from np have "k \<noteq> key" by auto
  moreover from np have "\<not> startsWith k (key @ '':'')" using startsWith_split by blast
  ultimately show ?thesis by (simp add: set_deleteKey)
qed

lemma tree_indexed_exec:
  assumes "\<forall>k. resolve (store c) (split_colon k) \<noteq> None \<longrightarrow> k \<in> set (keys c)"
    and "scalar_op op"
  shows "\<forall>k. resolve (store (exec op c)) (split_colon k) \<noteq> None \<longrightarrow> k \<in> set (keys (exec op c))"
proof (cases op)
  case (Set key v ttl_arg)
  then show ?thesis using assms tree_indexed_set [of c v key ttl_arg] by auto
next
  case (Delete key)
  then show ?thesis using assms(1) tree_indexed_delete_walk [of "store c" "keys c" key] by auto
next
  case Clear
  have "\<And>k. resolve (JObj fmempty) (split_colon k) = None"
    using split_colon_nonempty by (case_tac "split_colon k") auto
  then show ?thesis using Clear by (simp add: NodeCache_clear_def)
next
  case (Fire i)
  show ?thesis
  proof (cases "i < length (timers c)")
    case True
    then show ?thesis
      using Fire assms(1) tree_indexed_delete_walk [of "store c" "keys c" "fst (timers c ! i)"]
      by (auto simp: keys_fire store_fire)
  next
    case False
    then show ?thesis using Fire assms(1) by (simp add: keys_fire store_fire)
  qed
qed

section \<open>Frames and coverage\<close>






lemma covered_iff:
  "covered cur parts \<longleftrightarrow>
     resolve cur parts \<noteq> None
     \<or> (\<exists>n<length parts. \<exists>x. resolve cur (take n parts) = Some x \<and> \<not> is_mapping x)"
proof (induction cur parts rule: covered.induct)
  case (1 current)
  then show ?case by simp
next
  case (2 m part rest)
  show ?case
  proof (cases "fmlookup m part")
    case None
    have "\<not> (\<exists>n<length (part # rest). \<exists>x.
        resolve (JObj m) (take n (part # rest)) = Some x \<and> \<not> is_mapping x)"
    proof
      assume "\<exists>n<length (part # rest). \<exists>x.
        resolve (JObj m) (take n (part # rest)) = Some x \<and> \<not> is_mapping x"
      then obtain n x where "resolve (JObj m) (take n (part # rest)) = Some x" "\<not> is_mapping x"
        by blast
      then show False using None by (cases n) auto
    qed
    then show ?thesis using None by simp
  next
    case (Some c)
    have "(\<exists>n<length (part # rest). \<exists>x.
        resolve (JObj m) (take n (part # rest)) = Some x \<and> \<not> is_mapping x)
      \<longleftrightarrow> (\<exists>n<length rest. \<exists>x. resolve c (take n rest) = Some x \<and> \<not> is_mapping x)"
    proof
      assume "\<exists>n<length (part # rest). \<exists>x.
        resolve (JObj m) (take n (part # rest)) = Some x \<and> \<not> is_mapping x"
      then obtain n x where n: "n < length (part # rest)"
        and r: "resolve (JObj m) (take n (part # rest)) = Some x" and x: "\<not> is_mapping x"
        by blast
      from r x obtain n' where "n = Suc n'" by (cases n) auto
      with n r x Some show "\<exists>n<length rest. \<exists>x. resolve c (take n rest) = Some x \<and> \<not> is_mapping x"
        by auto
    next
      assume "\<exists>n<length rest. \<exists>x. resolve c (take n rest) = Some x \<and> \<not> is_mapping x"
      then obtain n x where "n < length rest" "resolve c (take n rest) = Some x" "\<not> is_mapping x"
        by blast
      then have "Suc n < length (part # rest)"
        "resolve (JObj m) (take (Suc n) (part # rest)) = Some x" using Some by auto
      with \<open>\<not> is_mapping x\<close> show "\<exists>n<length (part # rest). \<exists>x.
        resolve (JObj m) (take n (part # rest)) = Some x \<and> \<not> is_mapping x" by blast
    qed
    then show ?thesis using 2 Some by simp
  qed
qed (force+)

lemma covered_scalar: "\<not> is_mapping v \<Longrightarrow> covered v q"
  by (cases v; cases q) auto

lemma covered_set_walk_old:
  "\<not> is_mapping v \<Longrightarrow> covered cur q \<Longrightarrow> covered (fst (set_walk cur parts v)) q"
proof (induction cur parts v arbitrary: q rule: set_walk.induct)
  case (1 current v)
  then show ?case by simp
next
  case (2 current part v)
  then show ?case by (cases current; cases q) (auto simp: covered_scalar)
next
  case (3 m part p' rest v)
  show ?case
  proof (cases q)
    case Nil
    then show ?thesis by simp
  next
    case (Cons a qs)
    show ?thesis
    proof (cases "a = part")
      case False
      then show ?thesis using 3(4) Cons by (auto split: option.splits prod.splits)
    next
      case True
      with 3(4) Cons obtain c where c: "fmlookup m part = Some c" and cq: "covered c qs"
        by (auto split: option.splits)
      from 3(2) [OF c 3(3) cq] show ?thesis using Cons True c by (auto split: prod.splits)
    qed
  qed
qed simp_all

lemma covered_set_walk_new:
  "prefix q parts \<Longrightarrow> covered (fst (set_walk cur parts v)) q"
proof (induction cur parts v arbitrary: q rule: set_walk.induct)
  case (1 current v)
  then show ?case by simp
next
  case (2 current part v)
  then show ?case by (cases current; cases q) auto
next
  case (3 m part p' rest v)
  show ?case
  proof (cases q)
    case Nil
    then show ?thesis by simp
  next
    case (Cons a qs)
    with 3(3) have a: "a = part" and p: "prefix qs (p' # rest)" by auto
    show ?thesis
    proof (cases "fmlookup m part")
      case None
      from 3(1) [OF None p] show ?thesis using Cons a None by (auto split: prod.splits)
    next
      case (Some c)
      from 3(2) [OF Some p] show ?thesis using Cons a Some by (auto split: prod.splits)
    qed
  qed
qed (case_tac q; simp)+

lemma js_delete_covered:
  "\<not> prefix [part] q \<Longrightarrow> covered cur q \<Longrightarrow> covered (fst (js_delete cur part)) q"
  by (cases cur; cases q) (auto split: if_splits)

lemma covered_delete_walk:
  "\<not> prefix parts q \<Longrightarrow> covered cur q \<Longrightarrow> covered (fst (delete_walk cur parts)) q"
proof (induction cur parts arbitrary: q rule: delete_walk.induct)
  case (1 current)
  then show ?case by simp
next
  case (2 current part)
  then show ?case by (simp add: js_delete_covered)
next
  case (3 m part p' rest)
  show ?case
  proof (cases q)
    case Nil
    then show ?thesis by (auto split: option.splits prod.splits)
  next
    case (Cons a qs)
    show ?thesis
    proof (cases "a = part")
      case False
      then show ?thesis using 3(3) Cons by (auto split: option.splits prod.splits)
    next
      case True
      with 3(3) Cons obtain c where c: "fmlookup m part = Some c" and cq: "covered c qs"
        by (auto split: option.splits)
      from 3(2) Cons True have "\<not> prefix (p' # rest) qs" by simp
      from 3(1) [OF c this cq] show ?thesis using Cons True c by (auto split: prod.splits)
    qed
  qed
qed simp_all

lemma kept_not_under:
  assumes "k \<noteq> key" "\<not> startsWith k (key @ '':'')"
  shows "\<not> prefix (split_colon key) (split_colon k)"
proof
  assume "prefix (split_colon key) (split_colon k)"
  then have "join_colon (split_colon key) = join_colon (split_colon k)
      \<or> prefix (join_colon (split_colon key) @ '':'') (join_colon (split_colon k))"
    using split_colon_nonempty [of key] by (simp add: join_colon_prefix)
  then have "key = k \<or> prefix (key @ '':'') k" by (simp add: join_split_colon)
  with assms show False by (auto simp: startsWith_def)
qed

lemma split_colon_addKey:
  assumes "k \<in> set (addKey key ks)" "k \<notin> set ks"
  shows "prefix (split_colon k) (split_colon key)"
proof -
  from assms obtain i where i: "i < length (split_colon key)"
    and k: "k = join_colon (take (Suc i) (split_colon key))"
    by (auto simp: set_addKey)
  have "\<forall>p\<in>set (take (Suc i) (split_colon key)). CHR '':'' \<notin> set p"
    using split_colon_no_colon [of _ key] by (auto dest: in_set_takeD)
  moreover have "take (Suc i) (split_colon key) \<noteq> []"
    using split_colon_nonempty [of key] by simp
  ultimately have "split_colon k = take (Suc i) (split_colon key)"
    using k by (simp add: split_join_colon)
  then show ?thesis by (simp add: take_is_prefix)
qed

lemma index_covered_set:
  assumes "\<forall>k\<in>set (keys c). covered (store c) (split_colon k)"
    and "\<not> is_mapping v"
  shows "\<forall>k\<in>set (keys (snd (NodeCache_set key v ttl_arg c))).
           covered (store (snd (NodeCache_set key v ttl_arg c))) (split_colon k)"
proof
  fix k
  assume k: "k \<in> set (keys (snd (NodeCache_set key v ttl_arg c)))"
  show "covered (store (snd (NodeCache_set key v ttl_arg c))) (split_colon k)"
  proof (cases "k \<in> set (keys c)")
    case True
    with assms show ?thesis by (simp add: covered_set_walk_old)
  next
    case False
    with k have "prefix (split_colon k) (split_colon key)"
      by (simp add: split_colon_addKey)
    then show ?thesis by (simp add: covered_set_walk_new)
  qed
qed

lemma index_covered_delete_walk:
  assumes "\<forall>k\<in>set ks. covered st (split_colon k)"
  shows "\<forall>k\<in>set (deleteKey key ks). covered (fst (delete_walk st (split_colon key))) (split_colon k)"
proof
  fix k
  assume "k \<in> set (deleteKey key ks)"
  then have "k \<in> set ks" "k \<noteq> key" "\<not> startsWith k (key @ '':'')"
    by (auto simp: set_deleteKey)
  then show "covered (fst (delete_walk st (split_colon key))) (split_colon k)"
    using assms by (simp add: covered_delete_walk kept_not_under)
qed

lemma index_covered_exec:
  assumes "\<forall>k\<in>set (keys c). covered (store c) (split_colon k)"
    and "scalar_op op"
  shows "\<forall>k\<in>set (keys (exec op c)). covered (store (exec op c)) (split_colon k)"
proof (cases op)
  case (Set key v ttl_arg)
  then show ?thesis using assms index_covered_set [of c v key ttl_arg] by simp
next
  case (Delete key)
  then show ?thesis using assms(1) index_covered_delete_walk [of "keys c" "store c" key] by simp
next
  case Clear
  then show ?thesis by (simp add: NodeCache_clear_def)
next
  case (Fire i)
  then show ?thesis
    using assms(1) index_covered_delete_walk [of "keys c" "store c" "fst (timers c ! i)"]
    by (simp add: keys_fire store_fire)
qed

lemma index_covered_run:
  assumes "\<forall>op\<in>set ops. scalar_op op"
  shows "\<forall>k\<in>set (keys (run ops (construct opts))).
           covered (store (run ops (construct opts))) (split_colon k)"
  unfolding run_def
proof (rule fold_exec_invariant
    [where P = "\<lambda>c::NodeCache. \<forall>k\<in>set (keys c). covered (store c) (split_colon k)"])
  show "\<forall>k\<in>set (keys (construct opts)). covered (store (construct opts)) (split_colon k)"
    by (simp add: construct_def)
next
  fix op and c :: NodeCache
  assume "op \<in> set ops" and "\<forall>k\<in>set (keys c). covered (store c) (split_colon k)"
  then show "\<forall>k\<in>set (keys (exec op c)). covered (store (exec op c)) (split_colon k)"
    using assms by (intro index_covered_exec) auto
qed




section \<open>Properties of the cache\<close>


subsection \<open>C1\<close>

text \<open>
  Claim C1, amended. In every cache reached from a new one by \<^verbatim>\<open>set\<close> of non-mapping
  values, \<^verbatim>\<open>delete\<close>, \<^verbatim>\<open>clear\<close> and timers firing, in any order and whether or not an
  operation throws: every key whose path resolves to a node of the value tree is in
  the key index; and, the keys of the operations being plain, every key in the index
  either resolves to a node of the value tree or is shadowed, a strict prefix of its
  path holding a non-mapping value. So index and tree agree on every key that no
  stored scalar shadows.
\<close>

theorem index_tree_agree_unshadowed:
  assumes "\<forall>op\<in>set ops. scalar_op op"
  shows "(resolve (store (run ops (construct opts))) (split_colon k) \<noteq> None
          \<longrightarrow> fst (NodeCache_has k (run ops (construct opts))) = Returned True)
       \<and> ((\<forall>op\<in>set ops. plain_op op)
            \<and> fst (NodeCache_has k (run ops (construct opts))) = Returned True
          \<longrightarrow> resolve (store (run ops (construct opts))) (split_colon k) \<noteq> None
            \<or> (\<exists>n<length (split_colon k). \<exists>x.
                 resolve (store (run ops (construct opts))) (take n (split_colon k)) = Some x
                 \<and> \<not> is_mapping x))"
proof -
  have "\<forall>k. resolve (store (fold exec ops (construct opts))) (split_colon k) \<noteq> None
      \<longrightarrow> k \<in> set (keys (fold exec ops (construct opts)))"
  proof (rule fold_exec_invariant
      [where P = "\<lambda>c::NodeCache. \<forall>k. resolve (store c) (split_colon k) \<noteq> None \<longrightarrow> k \<in> set (keys c)"])
    have "\<And>k. resolve (JObj fmempty) (split_colon k) = None"
      using split_colon_nonempty by (case_tac "split_colon k") auto
    then show "\<forall>k. resolve (store (construct opts)) (split_colon k) \<noteq> None
      \<longrightarrow> k \<in> set (keys (construct opts))"
      by (simp add: construct_def)
  next
    fix op and c :: NodeCache
    assume "op \<in> set ops"
      and "\<forall>k. resolve (store c) (split_colon k) \<noteq> None \<longrightarrow> k \<in> set (keys c)"
    then show "\<forall>k. resolve (store (exec op c)) (split_colon k) \<noteq> None
      \<longrightarrow> k \<in> set (keys (exec op c))"
      using assms by (intro tree_indexed_exec) auto
  qed
  then have forward: "resolve (store (run ops (construct opts))) (split_colon k) \<noteq> None
          \<longrightarrow> fst (NodeCache_has k (run ops (construct opts))) = Returned True"
    by (simp add: run_def)
  have "fst (NodeCache_has k (run ops (construct opts))) = Returned True
          \<longrightarrow> covered (store (run ops (construct opts))) (split_colon k)"
    using index_covered_run [OF assms, of opts] by simp
  then have backward: "(\<forall>op\<in>set ops. plain_op op)
            \<and> fst (NodeCache_has k (run ops (construct opts))) = Returned True
          \<longrightarrow> resolve (store (run ops (construct opts))) (split_colon k) \<noteq> None
            \<or> (\<exists>n<length (split_colon k). \<exists>x.
                 resolve (store (run ops (construct opts))) (take n (split_colon k)) = Some x
                 \<and> \<not> is_mapping x)"
    unfolding covered_iff by blast
  from forward backward show ?thesis by (rule conjI)
qed

theorem index_tree_agree_unshadowed_witness:
  "fst (NodeCache_has ''a:b''
     (run [Set ''a:b:c'' (JNum 1) (Some 3), Set ''x'' JNull None, Fire 0, Delete ''x'',
           Set ''a:b:d'' (JStr ''v'') None]
        (construct \<lparr>ttl = None, debug = False\<rparr>))) = Returned True
   \<and> (\<exists>n<length (split_colon ''a:b''). \<exists>x.
        resolve (store (run [Set ''a:b'' (JNum 1) None, Set ''a'' (JNum 2) None]
            (construct \<lparr>ttl = None, debug = False\<rparr>))) (take n (split_colon ''a:b'')) = Some x
        \<and> \<not> is_mapping x)"
proof -
  let ?ops = "[Set ''a:b:c'' (JNum 1) (Some 3), Set ''x'' JNull None, Fire 0, Delete ''x'',
           Set ''a:b:d'' (JStr ''v'') None]"
  let ?ops2 = "[Set ''a:b'' (JNum 1) None, Set ''a'' (JNum 2) None]"
  let ?new = "construct \<lparr>ttl = None, debug = False\<rparr>"
  have h1: "\<forall>op\<in>set ?ops. scalar_op op" by simp
  have h2: "resolve (store (run ?ops ?new)) (split_colon ''a:b'') \<noteq> None"
    by (simp add: run_def construct_def NodeCache_set_def NodeCache_delete_def fire_def
        addKey_def deleteKey_def set_add_def startsWith_def upt_rec fmdrop_fmupd)
  have g1: "\<forall>op\<in>set ?ops2. scalar_op op" by simp
  have g0: "\<forall>op\<in>set ?ops2. plain_op op"
    by (simp add: plain_key_def object_prototype_names_def)
  have g2: "fst (NodeCache_has ''a:b'' (run ?ops2 ?new)) = Returned True"
    by (simp add: run_def construct_def addKey_def set_add_def upt_rec)
  have g3: "resolve (store (run ?ops2 ?new)) (split_colon ''a:b'') = None"
    by (simp add: run_def construct_def)
  from index_tree_agree_unshadowed [OF h1, of "\<lparr>ttl = None, debug = False\<rparr>" "''a:b''"] h2
    index_tree_agree_unshadowed [OF g1, of "\<lparr>ttl = None, debug = False\<rparr>" "''a:b''"] g0 g2 g3
  show ?thesis by blast
qed

text \<open>
  The equivalence of C1 as stated fails in both directions. After
  \<^verbatim>\<open>set("a:b", 1); set("a", 2)\<close> the key \<^verbatim>\<open>a:b\<close> is in the index and does not resolve in
  the tree (\<^verbatim>\<open>set\<close> never removes an index entry). After \<^verbatim>\<open>set("a", {x: 1})\<close> the path
  \<^verbatim>\<open>a:x\<close> resolves in the tree and is not in the index.
\<close>

theorem index_tree_sync_counterexample:
  "fst (NodeCache_has ''a:b''
     (run [Set ''a:b'' (JNum 1) None, Set ''a'' (JNum 2) None]
        (construct \<lparr>ttl = None, debug = False\<rparr>))) = Returned True
   \<and> resolve (store
     (run [Set ''a:b'' (JNum 1) None, Set ''a'' (JNum 2) None]
        (construct \<lparr>ttl = None, debug = False\<rparr>))) (split_colon ''a:b'') = None
   \<and> fst (NodeCache_has ''a:x''
     (run [Set ''a'' (JObj (fmupd ''x'' (JNum 1) fmempty)) None]
        (construct \<lparr>ttl = None, debug = False\<rparr>))) = Returned False
   \<and> resolve (store
     (run [Set ''a'' (JObj (fmupd ''x'' (JNum 1) fmempty)) None]
        (construct \<lparr>ttl = None, debug = False\<rparr>))) (split_colon ''a:x'') = Some (JNum 1)"
  by (simp add: run_def construct_def addKey_def set_add_def upt_rec)

subsection \<open>C2\<close>




subsection \<open>C3\<close>

text \<open>
  Claim C3 at its failing inputs. \<^verbatim>\<open>get\<close>, \<^verbatim>\<open>set\<close> and \<^verbatim>\<open>delete\<close> raise \<^verbatim>\<open>TypeError\<close>
  when the path crosses a stored non-object: \<^verbatim>\<open>get("a:b")\<close> after
  \<^verbatim>\<open>set("a:b", 1); set("a", 1)\<close>, and \<^verbatim>\<open>set("n:x:y", 1)\<close> and \<^verbatim>\<open>delete("n:x")\<close> after
  \<^verbatim>\<open>set("n", null)\<close>.
\<close>

theorem operations_throw_across_scalar:
  "fst (NodeCache_get ''a:b''
     (snd (NodeCache_set ''a'' (JNum 1) None
       (snd (NodeCache_set ''a:b'' (JNum 1) None (construct \<lparr>ttl = None, debug = False\<rparr>))))))
     = Threw TypeError
   \<and> fst (NodeCache_set ''n:x:y'' (JNum 1) None
       (snd (NodeCache_set ''n'' JNull None (construct \<lparr>ttl = None, debug = False\<rparr>))))
     = Threw TypeError
   \<and> fst (NodeCache_delete ''n:x''
       (snd (NodeCache_set ''n'' JNull None (construct \<lparr>ttl = None, debug = False\<rparr>))))
     = Threw TypeError"
  by (simp add: fst_set fst_delete NodeCache_get_def construct_def addKey_def set_add_def upt_rec)

subsection \<open>C4\<close>




subsection \<open>C5\<close>



subsection \<open>C6\<close>



subsection \<open>C7\<close>

text \<open>
  Claim C7. When \<^verbatim>\<open>key\<close> is in the index and its path resolves to a mapping node,
  \<^verbatim>\<open>get(key)\<close> returns that whole mapping; and in a new cache, after
  \<^verbatim>\<open>set("a:b", 1); set("a:c", 2)\<close>, \<^verbatim>\<open>get("a")\<close> returns the mapping with \<^verbatim>\<open>b\<close> at 1 and
  \<^verbatim>\<open>c\<close> at 2.
\<close>

theorem branch_fetch:
  "(key \<in> set (keys c) \<and> resolve (store c) (split_colon key) = Some (JObj m)
      \<longrightarrow> fst (NodeCache_get key c) = Returned (JObj m))
   \<and> fst (NodeCache_get ''a''
        (snd (NodeCache_set ''a:c'' (JNum 2) t2
          (snd (NodeCache_set ''a:b'' (JNum 1) t1 (construct opts))))))
       = Returned (JObj (fmupd ''c'' (JNum 2) (fmupd ''b'' (JNum 1) fmempty)))"
proof -
  have general: "key \<in> set (keys c) \<and> resolve (store c) (split_colon key) = Some (JObj m)
      \<longrightarrow> fst (NodeCache_get key c) = Returned (JObj m)"
    by (simp add: NodeCache_get_def resolve_get_walk)
  let ?c = "snd (NodeCache_set ''a:c'' (JNum 2) t2
          (snd (NodeCache_set ''a:b'' (JNum 1) t1 (construct opts))))"
  have "prefix [''a''] (split_colon ''a:c'')" by simp
  then have "join_colon [''a''] \<in> set (keys ?c)"
    unfolding keys_set by (rule addKey_prefix) simp
  then have k: "''a'' \<in> set (keys ?c)" by simp
  have "fst (NodeCache_get ''a'' ?c)
      = Returned (JObj (fmupd ''c'' (JNum 2) (fmupd ''b'' (JNum 1) fmempty)))"
    using k by (simp add: NodeCache_get_def construct_def)
  with general show ?thesis by blast
qed

theorem branch_fetch_witness:
  "fst (NodeCache_get ''a:b''
     (snd (NodeCache_set ''a:b:c'' (JStr ''v'') None (construct \<lparr>ttl = None, debug = False\<rparr>))))
   = Returned (JObj (fmupd ''c'' (JStr ''v'') fmempty))"
  using branch_fetch [of "''a:b''"
      "snd (NodeCache_set ''a:b:c'' (JStr ''v'') None (construct \<lparr>ttl = None, debug = False\<rparr>))"
      "fmupd ''c'' (JStr ''v'') fmempty"]
  by (simp add: construct_def addKey_def set_add_def upt_rec)

subsection \<open>C8\<close>




subsection \<open>C9\<close>

text \<open>
  Claim C9. \<^verbatim>\<open>set\<close> is monotone on the key index: a key for which \<^verbatim>\<open>has\<close> is true
  before \<^verbatim>\<open>set(k, v)\<close> is still there afterwards, whatever \<^verbatim>\<open>k\<close>, \<^verbatim>\<open>v\<close> and the TTL are
  and whether or not the walk of the value tree completes. The witness overwrites the
  branch \<^verbatim>\<open>a\<close> with a number: \<^verbatim>\<open>a:b\<close> stays in the index although it no longer resolves
  in the value tree.
\<close>

theorem set_index_monotone:
  "fst (NodeCache_has k' c) = Returned True \<Longrightarrow>
   fst (NodeCache_has k' (snd (NodeCache_set k v ttl_arg c))) = Returned True"
  using set_addKey [of k "keys c"] by auto

theorem set_index_monotone_witness:
  "fst (NodeCache_has ''a:b''
     (snd (NodeCache_set ''a:b'' (JNum 1) None (construct \<lparr>ttl = None, debug = False\<rparr>))))
     = Returned True
   \<and> fst (NodeCache_has ''a:b''
     (snd (NodeCache_set ''a'' (JNum 2) None
       (snd (NodeCache_set ''a:b'' (JNum 1) None (construct \<lparr>ttl = None, debug = False\<rparr>))))))
     = Returned True
   \<and> resolve (store (snd (NodeCache_set ''a'' (JNum 2) None
       (snd (NodeCache_set ''a:b'' (JNum 1) None (construct \<lparr>ttl = None, debug = False\<rparr>))))))
       (split_colon ''a:b'') = None"
proof -
  have h: "fst (NodeCache_has ''a:b''
     (snd (NodeCache_set ''a:b'' (JNum 1) None (construct \<lparr>ttl = None, debug = False\<rparr>))))
     = Returned True"
    by (simp add: addKey_self)
  show ?thesis
    using h set_index_monotone [OF h, of "''a''" "JNum 2" None]
    by (simp add: construct_def)
qed

subsection \<open>C10\<close>

text \<open>
  Claim C10. \<^verbatim>\<open>get\<close> and \<^verbatim>\<open>has\<close> are pure observers: whatever the cache and the
  key, the cache after the call is the cache before it: the value tree, the key index
  and the pending timers are unchanged.
\<close>

theorem get_has_pure:
  "snd (NodeCache_get key c) = c \<and> snd (NodeCache_has key c) = c"
  by (simp add: NodeCache_get_def NodeCache_has_def)

theorem get_has_pure_witness:
  "snd (NodeCache_get ''a'' (construct \<lparr>ttl = None, debug = True\<rparr>))
     = construct \<lparr>ttl = None, debug = True\<rparr>
   \<and> snd (NodeCache_has ''a'' (construct \<lparr>ttl = None, debug = True\<rparr>))
     = construct \<lparr>ttl = None, debug = True\<rparr>"
  using get_has_pure [of "''a''" "construct \<lparr>ttl = None, debug = True\<rparr>"] by simp

end
